theory Spec2Isabelle
  imports Main "HOL-Library.Word"
begin

section \<open>The DICOM parser of \<^verbatim>\<open>dicom.py\<close>\<close>

text \<open>
  The byte source is an open binary file. A file object is modelled by the bytes that are
  still ahead of its cursor: \<^verbatim>\<open>f.read(n)\<close> returns the next \<open>n\<close> bytes, or fewer when the
  file ends first, and moves the cursor past them. Python integers obtained from
  \<^verbatim>\<open>int.from_bytes\<close> are never negative and are modelled as \<open>nat\<close>; a Python \<^verbatim>\<open>str\<close> is
  modelled by its UTF-8 bytes, which determine it. The interpreter's call stack and memory
  are taken to be unbounded.
\<close>

subsection \<open>Data model\<close>

type_synonym byte = "8 word"

datatype error = InvalidDICOMFileException | UnicodeDecodeError

datatype ElementTag = ElementTag (group: nat) (elem: nat)

text \<open>The class of an element object: \<^verbatim>\<open>DataElement\<close> or one of its three subclasses.\<close>

datatype element_class =
  DataElementC | ItemDataElementC | ItemDelimitationElementC | SequenceDelimitationElementC

datatype element = Element
  (cls: element_class)
  (tag: ElementTag)
  (val_repr: "string option")
  (val_length: "nat option")
  (val_data: "byte list option")
  (children: "element list")

record DICOM =
  path :: string
  preamble :: "byte list"
  dataset :: "element list"

definition UNDEFINED_LENGTH :: nat where
  "UNDEFINED_LENGTH = 0xffffffff"

definition VR_EXPLICIT_16BIT_VLF :: "string list" where
  "VR_EXPLICIT_16BIT_VLF =
     [''AE'', ''AS'', ''AT'', ''CS'', ''DA'', ''DS'', ''DT'', ''FL'', ''FD'', ''IS'', ''LO'',
      ''LT'', ''PN'', ''SH'', ''SL'', ''SS'', ''ST'', ''TM'', ''UI'', ''UL'', ''US'']"

subsection \<open>Element constructors\<close>

text \<open>
  Each \<^verbatim>\<open>__init__\<close> stores \<^verbatim>\<open>val_length if val_length != UNDEFINED_LENGTH else None\<close>.
  The three subclasses fix the tag and store no value representation.
\<close>

definition store_length :: "nat \<Rightarrow> nat option" where
  "store_length len = (if len \<noteq> UNDEFINED_LENGTH then Some len else None)"

definition DataElement ::
  "ElementTag \<Rightarrow> string \<Rightarrow> nat \<Rightarrow> byte list option \<Rightarrow> element list \<Rightarrow> element" where
  "DataElement t vr len data cs =
     Element DataElementC t (Some vr) (store_length len) data cs"

definition ItemDataElement :: "nat \<Rightarrow> byte list option \<Rightarrow> element list \<Rightarrow> element" where
  "ItemDataElement len data cs =
     Element ItemDataElementC (ElementTag 0xfffe 0xe000) None (store_length len) data cs"

definition ItemDelimitationElement :: "nat \<Rightarrow> byte list option \<Rightarrow> element list \<Rightarrow> element" where
  "ItemDelimitationElement len data cs =
     Element ItemDelimitationElementC (ElementTag 0xfffe 0xe00d) None (store_length len) data cs"

definition SequenceDelimitationElement ::
  "nat \<Rightarrow> byte list option \<Rightarrow> element list \<Rightarrow> element" where
  "SequenceDelimitationElement len data cs =
     Element SequenceDelimitationElementC (ElementTag 0xfffe 0xe0dd) None (store_length len) data cs"

definition is_length_undefined :: "element \<Rightarrow> bool" where
  "is_length_undefined e = (if val_length e = None then True else False)"

text \<open>\<^verbatim>\<open>self.children += children\<close>\<close>

definition add_children :: "element \<Rightarrow> element list \<Rightarrow> element" where
  "add_children e cs =
     Element (cls e) (tag e) (val_repr e) (val_length e) (val_data e) (children e @ cs)"

text \<open>
  \<^verbatim>\<open>isinstance(item, SequenceDelimitationElement) or isinstance(item, ItemDelimitationElement)\<close>
\<close>

definition is_delimiter :: "element \<Rightarrow> bool" where
  "is_delimiter e =
     (cls e = SequenceDelimitationElementC \<or> cls e = ItemDelimitationElementC)"

subsection \<open>Reading bytes\<close>

text \<open>\<^verbatim>\<open>f.read(n)\<close>: the bytes read and the file after the read.\<close>

definition read :: "nat \<Rightarrow> byte list \<Rightarrow> byte list \<times> byte list" where
  "read n f = (take n f, drop n f)"

text \<open>\<^verbatim>\<open>int.from_bytes(bs, byteorder='little')\<close>, unsigned; the empty string gives 0.\<close>

fun from_bytes_little :: "byte list \<Rightarrow> nat" where
  "from_bytes_little [] = 0"
| "from_bytes_little (b # bs) = unat b + 256 * from_bytes_little bs"

text \<open>
  \<^verbatim>\<open>str(bs, encoding='utf-8')\<close> decodes strictly and raises \<^verbatim>\<open>UnicodeDecodeError\<close> on bytes
  that are not well-formed UTF-8 (overlong forms, surrogates, values above U+10FFFF, stray
  continuation bytes and sequences cut short are all refused).
\<close>

definition utf8_cont :: "byte \<Rightarrow> bool" where
  "utf8_cont b = (0x80 \<le> b \<and> b \<le> 0xBF)"

fun utf8_wellformed :: "byte list \<Rightarrow> bool" where
  "utf8_wellformed [] = True"
| "utf8_wellformed (a # bs) =
     (if a < 0x80 then utf8_wellformed bs
      else if 0xC2 \<le> a \<and> a \<le> 0xDF then
        (case bs of b # cs \<Rightarrow> utf8_cont b \<and> utf8_wellformed cs | _ \<Rightarrow> False)
      else if 0xE0 \<le> a \<and> a \<le> 0xEF then
        (case bs of b # c # ds \<Rightarrow>
             (if a = 0xE0 then 0xA0 \<le> b \<and> b \<le> 0xBF
              else if a = 0xED then 0x80 \<le> b \<and> b \<le> 0x9F
              else utf8_cont b)
             \<and> utf8_cont c \<and> utf8_wellformed ds
         | _ \<Rightarrow> False)
      else if 0xF0 \<le> a \<and> a \<le> 0xF4 then
        (case bs of b # c # d # es \<Rightarrow>
             (if a = 0xF0 then 0x90 \<le> b \<and> b \<le> 0xBF
              else if a = 0xF4 then 0x80 \<le> b \<and> b \<le> 0x8F
              else utf8_cont b)
             \<and> utf8_cont c \<and> utf8_cont d \<and> utf8_wellformed es
         | _ \<Rightarrow> False)
      else False)"

definition str_utf8 :: "byte list \<Rightarrow> error + string" where
  "str_utf8 bs =
     (if utf8_wellformed bs then Inr (map (\<lambda>b. char_of (unat b)) bs)
      else Inl UnicodeDecodeError)"

subsection \<open>The element reader\<close>

text \<open>
  \<^verbatim>\<open>read_dataset_item(f)\<close>: \<open>Inr (None, f')\<close> is the return value \<^verbatim>\<open>None\<close>,
  \<open>Inr (Some e, f')\<close> a returned element, \<open>Inl\<close> a raised exception; \<open>f'\<close> is the file after
  the call. No read is checked for its length except the first one for emptiness, and
  slices of a short \<^verbatim>\<open>tag_data\<close> are short or empty.

  The three branches for the special sequence elements differ only in the class they
  construct; \<open>read_special\<close> is their common body, with the constructor as a parameter.
  \<open>read_length\<close> is the block under \<^verbatim>\<open># Read the length.\<close>
\<close>

definition read_special ::
  "(nat \<Rightarrow> byte list option \<Rightarrow> element list \<Rightarrow> element) \<Rightarrow> byte list
     \<Rightarrow> error + (element option \<times> byte list)" where
  "read_special mk f1 =
     (let (length_data, f2) = read 4 f1;
          len = from_bytes_little length_data
      in if len \<noteq> UNDEFINED_LENGTH then
           (let (data, f3) = read len f2 in Inr (Some (mk len (Some data) []), f3))
         else Inr (Some (mk len None []), f2))"

definition read_length :: "string \<Rightarrow> byte list \<Rightarrow> nat \<times> byte list" where
  "read_length value_repr f2 =
     (if value_repr \<in> set VR_EXPLICIT_16BIT_VLF then
        (let (length_data, f3) = read 2 f2 in (from_bytes_little length_data, f3))
      else
        (let (reserved, f3) = read 2 f2;
             (length_data, f4) = read 4 f3
         in (from_bytes_little length_data, f4)))"

definition read_dataset_item :: "byte list \<Rightarrow> error + (element option \<times> byte list)" where
  "read_dataset_item f =
     (let (tag_data, f1) = read 4 f in
      if tag_data = [] then Inr (None, f1)
      else
        let group_num = from_bytes_little (take 2 tag_data);
            element_num = from_bytes_little (take 2 (drop 2 tag_data))
        in
          if group_num = 0xfffe \<and> element_num = 0xe000 then read_special ItemDataElement f1
          else if group_num = 0xfffe \<and> element_num = 0xe00d then
            read_special ItemDelimitationElement f1
          else if group_num = 0xfffe \<and> element_num = 0xe0dd then
            read_special SequenceDelimitationElement f1
          else
            (let (vr_data, f2) = read 2 f1 in
             case str_utf8 vr_data of
               Inl exn \<Rightarrow> Inl exn
             | Inr value_repr \<Rightarrow>
                 (let (len, f3) = read_length value_repr f2 in
                  if len = UNDEFINED_LENGTH then
                    Inr (Some (DataElement (ElementTag group_num element_num)
                                 value_repr len None []), f3)
                  else
                    (let (data, f4) = read len f3 in
                     Inr (Some (DataElement (ElementTag group_num element_num)
                                  value_repr len (Some data) []), f4)))))"

subsection \<open>The dataset reader\<close>

text \<open>
  \<^verbatim>\<open>read_dataset(f)\<close>. One round of the \<^verbatim>\<open>while True\<close> loop reads an item, appends it,
  reads its children by a recursive call when its length is undefined (the item appended is
  the object that receives them), and leaves the loop on \<^verbatim>\<open>None\<close> or after a delimiter.
  The list built by appending is the item followed by what the remaining rounds append.
\<close>

function read_dataset :: "byte list \<Rightarrow> error + (element list \<times> byte list)" where
  "read_dataset f =
     (case read_dataset_item f of
        Inl exn \<Rightarrow> Inl exn
      | Inr (None, f1) \<Rightarrow> Inr ([], f1)
      | Inr (Some item, f1) \<Rightarrow>
          (case (if is_length_undefined item then
                   (case read_dataset f1 of
                      Inl exn \<Rightarrow> Inl exn
                    | Inr (cs, f2) \<Rightarrow> Inr (add_children item cs, f2))
                 else Inr (item, f1)) of
             Inl exn \<Rightarrow> Inl exn
           | Inr (item', f2) \<Rightarrow>
               if is_delimiter item' then Inr ([item'], f2)
               else (case read_dataset f2 of
                       Inl exn \<Rightarrow> Inl exn
                     | Inr (items, f3) \<Rightarrow> Inr (item' # items, f3))))"
  by pat_completeness auto

subsection \<open>The file loader\<close>



subsection \<open>Finding elements by tag\<close>

text \<open>
  \<^verbatim>\<open>ElementTag.__eq__\<close> for two tags, and \<^verbatim>\<open>DICOM.find_elements_by_tag\<close>: the loop over
  \<^verbatim>\<open>self.dataset\<close> with the list \<^verbatim>\<open>elements\<close> it appends to.
\<close>

definition ElementTag_eq :: "ElementTag \<Rightarrow> ElementTag \<Rightarrow> bool" where
  "ElementTag_eq a b = (if group a \<noteq> group b \<or> elem a \<noteq> elem b then False else True)"

fun find_loop :: "ElementTag \<Rightarrow> element list \<Rightarrow> element list \<Rightarrow> element list" where
  "find_loop t elements [] = elements"
| "find_loop t elements (item # items) =
     find_loop t (if ElementTag_eq (tag item) t then elements @ [item] else elements) items"

definition find_elements_by_tag :: "DICOM \<Rightarrow> ElementTag \<Rightarrow> element list" where
  "find_elements_by_tag dicom t = find_loop t [] (dataset dicom)"

section \<open>Notions used in the statements\<close>

subsection \<open>Sizes on the wire\<close>

text \<open>
  The length an element declares, with an undefined length counted as 0, and the size of
  the fields before the payload: tag and 4-byte length for an element without a value
  representation, tag, value representation and a 2-byte length or 2 reserved bytes and a
  4-byte length otherwise.
\<close>

definition declared_length :: "element \<Rightarrow> nat" where
  "declared_length e = (case val_length e of None \<Rightarrow> 0 | Some n \<Rightarrow> n)"

definition header_size :: "element \<Rightarrow> nat" where
  "header_size e =
     (case val_repr e of
        None \<Rightarrow> 4 + 4
      | Some vr \<Rightarrow> if vr \<in> set VR_EXPLICIT_16BIT_VLF then 4 + 2 + 2 else 4 + 2 + 6)"

subsection \<open>Reserved tags\<close>

text \<open>The three tags of the special sequence elements, and the class each one stands for.\<close>

definition reserved_tag :: "nat \<Rightarrow> nat \<Rightarrow> bool" where
  "reserved_tag g el = (g = 0xfffe \<and> (el = 0xe000 \<or> el = 0xe00d \<or> el = 0xe0dd))"

definition special_class :: "nat \<Rightarrow> element_class" where
  "special_class el =
     (if el = 0xe000 then ItemDataElementC
      else if el = 0xe00d then ItemDelimitationElementC
      else SequenceDelimitationElementC)"

subsection \<open>Trees of elements\<close>

text \<open>An element with everything below it, and the same for a list of elements.\<close>

fun subelements :: "element \<Rightarrow> element list" where
  "subelements (Element c t vr n d cs) = Element c t vr n d cs # concat (map subelements cs)"

definition all_elements :: "element list \<Rightarrow> element list" where
  "all_elements xs = concat (map subelements xs)"


section \<open>Properties\<close>

subsection \<open>The cursor only moves forward, and the dataset reader terminates\<close>

lemmas ctor_defs = DataElement_def ItemDataElement_def ItemDelimitationElement_def
  SequenceDelimitationElement_def

lemma read_special_rest:
  assumes "read_special mk f1 = Inr (Some e, f')"
    and "mk = ItemDataElement \<or> mk = ItemDelimitationElement \<or> mk = SequenceDelimitationElement"
  shows "f' = drop (4 + declared_length e) f1 \<and> val_repr e = None"
  using assms
  by (auto simp: read_special_def read_def Let_def add.commute ctor_defs declared_length_def
      store_length_def split: if_splits)

lemma read_length_rest:
  assumes "read_length vr f2 = (len, f3)"
  shows "f3 = drop (if vr \<in> set VR_EXPLICIT_16BIT_VLF then 2 else 6) f2"
  using assms
  by (auto simp: read_length_def read_def Let_def split: if_splits)

lemma read_dataset_item_rest:
  assumes "read_dataset_item f = Inr (Some e, f')"
  shows "f \<noteq> [] \<and> f' = drop (header_size e + declared_length e) f"
proof -
  from assms have ne: "f \<noteq> []"
    by (auto simp: read_dataset_item_def read_def Let_def split: if_splits)
  have sp: "f' = drop (header_size e + declared_length e) f"
    if "read_special mk (drop 4 f) = Inr (Some e, f')"
      and "mk = ItemDataElement \<or> mk = ItemDelimitationElement \<or>
           mk = SequenceDelimitationElement" for mk
    using read_special_rest[OF that] by (simp add: header_size_def add.commute)
  have "f' = drop (header_size e + declared_length e) f"
    using assms
    apply (simp add: read_dataset_item_def read_def Let_def split: if_splits sum.splits prod.splits)
       apply (rule sp, assumption, simp)
       apply (rule sp, assumption, simp)
       apply (rule sp, assumption, simp)
    apply (auto dest!: read_length_rest simp: header_size_def declared_length_def DataElement_def store_length_def add.commute)
    done
  with ne show ?thesis by simp
qed

lemma read_dataset_item_shrinks:
  assumes "read_dataset_item f = Inr (Some e, f')"
  shows "length f' < length f"
proof -
  have "0 < header_size e" by (simp add: header_size_def split: option.splits)
  with read_dataset_item_rest[OF assms] show ?thesis by (cases f) auto
qed

lemma read_dataset_item_None:
  "read_dataset_item f = Inr (None, f') \<longleftrightarrow> f = [] \<and> f' = []"
  by (auto simp: read_dataset_item_def read_special_def read_def Let_def
      split: if_splits sum.splits prod.splits)

lemma read_dataset_dom_shrinks:
  "read_dataset_dom f \<Longrightarrow> read_dataset f = Inr (xs, f') \<Longrightarrow> length f' \<le> length f"
proof (induction f arbitrary: xs f' rule: read_dataset.pinduct)
  case (1 f)
  note eq = "1.prems"[unfolded read_dataset.psimps[OF "1.hyps"]]
  show ?case
  proof (cases "read_dataset_item f")
    case (Inl exn)
    with eq show ?thesis by simp
  next
    case (Inr b)
    obtain x f1 where b: "b = (x, f1)" by (cases b)
    show ?thesis
    proof (cases x)
      case None
      with eq Inr b show ?thesis by (simp add: read_dataset_item_None)
    next
      case (Some item)
      from Inr b Some have f1: "length f1 < length f"
        by (auto dest: read_dataset_item_shrinks)
      obtain item' f2 where mid:
        "(if is_length_undefined item then
            (case read_dataset f1 of Inl exn \<Rightarrow> Inl exn
             | Inr (cs, f2) \<Rightarrow> Inr (add_children item cs, f2))
          else Inr (item, f1)) = Inr (item', f2)"
        using eq Inr b Some by (auto split: sum.splits)
      have f2: "length f2 \<le> length f1"
      proof (cases "is_length_undefined item")
        case True
        with mid obtain cs where "read_dataset f1 = Inr (cs, f2)"
          by (auto split: sum.splits)
        with "1.IH"(1)[OF Inr b[symmetric] Some True] show ?thesis by blast
      next
        case False
        with mid show ?thesis by simp
      qed
      show ?thesis
      proof (cases "is_delimiter item'")
        case True
        with eq Inr b Some mid f1 f2 show ?thesis by simp
      next
        case False
        with eq Inr b Some mid obtain items where "read_dataset f2 = Inr (items, f')"
          by (auto split: sum.splits)
        with "1.IH"(2)[OF Inr b[symmetric] Some mid refl False] have "length f' \<le> length f2"
          by blast
        with f1 f2 show ?thesis by simp
      qed
    qed
  qed
qed

termination read_dataset
proof (relation "measure length")
  show "wf (measure length)" by simp
next
  fix f b x y x2
  assume "read_dataset_item f = Inr b" "(x, y) = b" "x = Some x2"
  then show "(y, f) \<in> measure length"
    by (auto dest: read_dataset_item_shrinks)
next
  fix f :: "byte list" and b x y x2 ba xa ya
  assume a: "read_dataset_item f = Inr b" "(x, y) = b" "x = Some x2"
    and mid: "(if is_length_undefined x2 then
            (case read_dataset y of Inl exn \<Rightarrow> Inl exn
             | Inr (cs, f2) \<Rightarrow> Inr (add_children x2 cs, f2))
          else Inr (x2, y)) = Inr ba" "(xa, ya) = ba"
    and dom: "is_length_undefined x2 \<Longrightarrow> read_dataset_dom y"
  from a have y: "length y < length f" by (auto dest: read_dataset_item_shrinks)
  have "length ya \<le> length y"
  proof (cases "is_length_undefined x2")
    case True
    with mid obtain cs where "read_dataset y = Inr (cs, ya)" by (auto split: sum.splits)
    with read_dataset_dom_shrinks[OF dom[OF True]] show ?thesis by blast
  next
    case False
    with mid show ?thesis by auto
  qed
  with y show "(ya, f) \<in> measure length" by simp
qed

declare read_dataset.simps [simp del]

subsection \<open>Successful reads of a dataset\<close>

lemma read_dataset_eof: "read_dataset [] = Inr ([], [])"
  by (subst read_dataset.simps) (simp add: read_dataset_item_def read_def)

text \<open>What one round of the loop does to the item it read.\<close>

lemma read_dataset_Inr_cases:
  assumes "read_dataset f = Inr (xs, f')"
  obtains (eof) "f = []" "xs = []" "f' = []"
  | (item) item f1 item' f2 where
      "read_dataset_item f = Inr (Some item, f1)"
      "is_length_undefined item \<Longrightarrow>
         \<exists>cs. read_dataset f1 = Inr (cs, f2) \<and> item' = add_children item cs"
      "\<not> is_length_undefined item \<Longrightarrow> item' = item \<and> f2 = f1"
      "is_delimiter item' \<Longrightarrow> xs = [item'] \<and> f' = f2"
      "\<not> is_delimiter item' \<Longrightarrow>
         \<exists>items. read_dataset f2 = Inr (items, f') \<and> xs = item' # items"
proof (cases "read_dataset_item f")
  case (Inl exn)
  with assms show ?thesis by (subst (asm) read_dataset.simps) simp
next
  case (Inr b)
  obtain x f1 where b: "b = (x, f1)" by (cases b)
  show ?thesis
  proof (cases x)
    case None
    with Inr b have "f = []" "f1 = []" by (simp_all add: read_dataset_item_None)
    with assms read_dataset_eof eof show ?thesis by simp
  next
    case (Some it)
    note rd = Inr[unfolded b Some]
    show ?thesis
    proof (cases "is_length_undefined it")
      case True
      with assms rd obtain cs f2 where nested: "read_dataset f1 = Inr (cs, f2)"
        by (subst (asm) read_dataset.simps) (auto split: sum.splits)
      show ?thesis
      proof (rule item[where item=it and ?f1.0=f1 and item'="add_children it cs" and ?f2.0=f2])
        show "read_dataset_item f = Inr (Some it, f1)" by (rule rd)
        show "\<exists>cs'. read_dataset f1 = Inr (cs', f2) \<and> add_children it cs = add_children it cs'"
          using nested by blast
        show "add_children it cs = it \<and> f2 = f1" if "\<not> is_length_undefined it"
          using that True by simp
        show "xs = [add_children it cs] \<and> f' = f2" if "is_delimiter (add_children it cs)"
          using assms rd True nested that by (subst (asm) read_dataset.simps) simp
        show "\<exists>items. read_dataset f2 = Inr (items, f') \<and> xs = add_children it cs # items"
          if "\<not> is_delimiter (add_children it cs)"
          using assms rd True nested that
          by (subst (asm) read_dataset.simps) (auto split: sum.splits)
      qed
    next
      case False
      show ?thesis
      proof (rule item[where item=it and ?f1.0=f1 and item'=it and ?f2.0=f1])
        show "read_dataset_item f = Inr (Some it, f1)" by (rule rd)
        show "\<exists>cs. read_dataset f1 = Inr (cs, f1) \<and> it = add_children it cs"
          if "is_length_undefined it" using that False by simp
        show "it = it \<and> f1 = f1" by simp
        show "xs = [it] \<and> f' = f1" if "is_delimiter it"
          using assms rd False that by (subst (asm) read_dataset.simps) simp
        show "\<exists>items. read_dataset f1 = Inr (items, f') \<and> xs = it # items"
          if "\<not> is_delimiter it"
          using assms rd False that
          by (subst (asm) read_dataset.simps) (auto split: sum.splits)
      qed
    qed
  qed
qed

lemma read_dataset_shrinks:
  "read_dataset f = Inr (xs, f') \<Longrightarrow> length f' \<le> length f"
proof (induction "length f" arbitrary: f xs f' rule: less_induct)
  case less
  from less.prems show ?case
  proof (cases rule: read_dataset_Inr_cases)
    case eof
    then show ?thesis by simp
  next
    case (item item f1 item' f2)
    from item(1) have f1: "length f1 < length f" by (rule read_dataset_item_shrinks)
    have f2: "length f2 \<le> length f1"
    proof (cases "is_length_undefined item")
      case True
      with item(2) obtain cs where "read_dataset f1 = Inr (cs, f2)" by blast
      with less.hyps[OF f1] show ?thesis by blast
    next
      case False
      with item(3) show ?thesis by simp
    qed
    show ?thesis
    proof (cases "is_delimiter item'")
      case True
      with item(4) f1 f2 show ?thesis by simp
    next
      case False
      with item(5) obtain items where "read_dataset f2 = Inr (items, f')" by blast
      moreover from f1 f2 have "length f2 < length f" by simp
      ultimately have "length f' \<le> length f2" using less.hyps by blast
      with f1 f2 show ?thesis by simp
    qed
  qed
qed

lemma read_dataset_Inr_induct [consumes 1, case_names eof item]:
  assumes "read_dataset f = Inr (xs, f')"
    and eof: "P [] [] []"
    and item: "\<And>f xs f' item f1 item' f2.
      read_dataset f = Inr (xs, f') \<Longrightarrow>
      read_dataset_item f = Inr (Some item, f1) \<Longrightarrow>
      (is_length_undefined item \<Longrightarrow>
         \<exists>cs. read_dataset f1 = Inr (cs, f2) \<and> item' = add_children item cs \<and> P f1 cs f2) \<Longrightarrow>
      (\<not> is_length_undefined item \<Longrightarrow> item' = item \<and> f2 = f1) \<Longrightarrow>
      (is_delimiter item' \<Longrightarrow> xs = [item'] \<and> f' = f2) \<Longrightarrow>
      (\<not> is_delimiter item' \<Longrightarrow>
         \<exists>items. read_dataset f2 = Inr (items, f') \<and> xs = item' # items \<and> P f2 items f') \<Longrightarrow>
      P f xs f'"
  shows "P f xs f'"
  using assms(1)
proof (induction "length f" arbitrary: f xs f' rule: less_induct)
  case less
  from less.prems show ?case
  proof (cases rule: read_dataset_Inr_cases)
    case eof
    with assms(2) show ?thesis by simp
  next
    case (item it f1 item' f2)
    from item(1) have f1: "length f1 < length f" by (rule read_dataset_item_shrinks)
    have f2: "length f2 \<le> length f1"
    proof (cases "is_length_undefined it")
      case True
      with item(2) obtain cs where "read_dataset f1 = Inr (cs, f2)" by blast
      then show ?thesis by (rule read_dataset_shrinks)
    next
      case False
      with item(3) show ?thesis by simp
    qed
    show ?thesis
    proof (rule assms(3)[OF less.prems item(1)])
      show "\<exists>cs. read_dataset f1 = Inr (cs, f2) \<and> item' = add_children it cs \<and> P f1 cs f2"
        if "is_length_undefined it"
        using item(2)[OF that] less.hyps[OF f1] by blast
      show "item' = it \<and> f2 = f1" if "\<not> is_length_undefined it"
        using item(3)[OF that] .
      show "xs = [item'] \<and> f' = f2" if "is_delimiter item'"
        using item(4)[OF that] .
      show "\<exists>items. read_dataset f2 = Inr (items, f') \<and> xs = item' # items \<and> P f2 items f'"
        if "\<not> is_delimiter item'"
      proof -
        from f1 f2 have "length f2 < length f" by simp
        with item(5)[OF that] less.hyps show ?thesis by blast
      qed
    qed
  qed
qed

subsection \<open>The element reader in closed form\<close>

lemma read_special_eq:
  "read_special mk f1 =
     (if from_bytes_little (take 4 f1) \<noteq> UNDEFINED_LENGTH then
        Inr (Some (mk (from_bytes_little (take 4 f1))
                     (Some (take (from_bytes_little (take 4 f1)) (drop 4 f1))) []),
             drop (4 + from_bytes_little (take 4 f1)) f1)
      else Inr (Some (mk UNDEFINED_LENGTH None []), drop 4 f1))"
  by (simp add: read_special_def read_def Let_def add.commute)

lemma read_length_eq:
  "read_length vr f2 =
     (if vr \<in> set VR_EXPLICIT_16BIT_VLF then (from_bytes_little (take 2 f2), drop 2 f2)
      else (from_bytes_little (take 4 (drop 2 f2)), drop 6 f2))"
  by (simp add: read_length_def read_def Let_def)

lemma read_dataset_item_generic:
  assumes "f \<noteq> []"
    and "\<not> reserved_tag (from_bytes_little (take 2 f)) (from_bytes_little (take 2 (drop 2 f)))"
  shows "read_dataset_item f =
     (case str_utf8 (take 2 (drop 4 f)) of
        Inl exn \<Rightarrow> Inl exn
      | Inr vr \<Rightarrow>
          (let len = fst (read_length vr (drop 6 f));
               f3 = snd (read_length vr (drop 6 f))
           in Inr (Some (DataElement
                    (ElementTag (from_bytes_little (take 2 f))
                       (from_bytes_little (take 2 (drop 2 f))))
                    vr len (if len = UNDEFINED_LENGTH then None else Some (take len f3)) []),
                   if len = UNDEFINED_LENGTH then f3 else drop len f3)))"
  using assms
  by (auto simp: read_dataset_item_def read_def Let_def reserved_tag_def drop_take
      split: sum.splits prod.splits)

lemma read_dataset_item_reserved:
  assumes "from_bytes_little (take 2 f) = 0xfffe"
    and "from_bytes_little (take 2 (drop 2 f)) = el"
    and "el = 0xe000 \<or> el = 0xe00d \<or> el = 0xe0dd"
  shows "read_dataset_item f =
     read_special (if el = 0xe000 then ItemDataElement
                   else if el = 0xe00d then ItemDelimitationElement
                   else SequenceDelimitationElement) (drop 4 f)"
proof -
  from assms(1) have "f \<noteq> []" by auto
  with assms show ?thesis
    by (auto simp: read_dataset_item_def read_def Let_def drop_take)
qed

lemmas eval_defs = read_dataset_item_def read_special_def read_length_def read_def
  str_utf8_def utf8_cont_def VR_EXPLICIT_16BIT_VLF_def UNDEFINED_LENGTH_def char_of_def bit_0

lemma read_dataset_item_shape:
  assumes "read_dataset_item f = Inr (Some e, f')"
  shows "children e = [] \<and> (cls e = DataElementC \<longleftrightarrow> val_repr e \<noteq> None)"
proof -
  from read_dataset_item_rest[OF assms] have ne: "f \<noteq> []" by simp
  let ?g = "from_bytes_little (take 2 f)" and ?el = "from_bytes_little (take 2 (drop 2 f))"
  show ?thesis
  proof (cases "reserved_tag ?g ?el")
    case True
    then have "read_dataset_item f =
       read_special (if ?el = 0xe000 then ItemDataElement
                     else if ?el = 0xe00d then ItemDelimitationElement
                     else SequenceDelimitationElement) (drop 4 f)"
      by (intro read_dataset_item_reserved) (auto simp: reserved_tag_def)
    with assms show ?thesis
      by (auto simp: read_special_eq ctor_defs split: if_splits)
  next
    case False
    from assms read_dataset_item_generic[OF ne False]
    obtain vr len d where "e = DataElement (ElementTag ?g ?el) vr len d []"
      by (auto simp: Let_def split: sum.splits)
    then show ?thesis by (simp add: DataElement_def)
  qed
qed

subsection \<open>Bytes consumed by the element reader\<close>

text \<open>
  C3. A successful call of the element reader on a stream that holds all the bytes the
  element asks for consumes exactly 4 + 2 + 2 + length bytes for a generic element with a
  short-form value representation, 4 + 2 + 6 + length for one with a long-form value
  representation and 4 + 4 + length for a reserved-tag element, an undefined length
  counting as 0; on any stream the cursor ends at most that far from where it started.
\<close>

theorem read_dataset_item_consumes:
  assumes "read_dataset_item f = Inr (Some e, f')"
  shows "(cls e = DataElementC \<and> val_repr e = Some vr \<and> vr \<in> set VR_EXPLICIT_16BIT_VLF \<and>
            4 + 2 + 2 + declared_length e \<le> length f
          \<longrightarrow> length f - length f' = 4 + 2 + 2 + declared_length e) \<and>
         (cls e = DataElementC \<and> val_repr e = Some vr \<and> vr \<notin> set VR_EXPLICIT_16BIT_VLF \<and>
            4 + 2 + 6 + declared_length e \<le> length f
          \<longrightarrow> length f - length f' = 4 + 2 + 6 + declared_length e) \<and>
         (cls e \<noteq> DataElementC \<and> 4 + 4 + declared_length e \<le> length f
          \<longrightarrow> length f - length f' = 4 + 4 + declared_length e) \<and>
         f' = drop (header_size e + declared_length e) f \<and>
         length f - length f' \<le> header_size e + declared_length e"
proof -
  from read_dataset_item_rest[OF assms]
  have rest: "f' = drop (header_size e + declared_length e) f" by simp
  from read_dataset_item_shape[OF assms]
  have shape: "cls e = DataElementC \<longleftrightarrow> val_repr e \<noteq> None" by simp
  have len: "length f - length f' = min (length f) (header_size e + declared_length e)"
    by (simp add: rest)
  show ?thesis
    using rest shape len by (auto simp: header_size_def)
qed

theorem read_dataset_item_consumes_witness:
  "read_dataset_item [8, 0, 0, 0, 0x55, 0x4C, 4, 0, 1, 2, 3, 4, 9]
     = Inr (Some (DataElement (ElementTag 8 0) ''UL'' 4 (Some [1, 2, 3, 4]) []), [9]) \<and>
   length [8, 0, 0, 0, 0x55, 0x4C, 4, 0, 1, 2, 3, 4, 9 :: byte] - length [9 :: byte]
     = 4 + 2 + 2 + declared_length (DataElement (ElementTag 8 0) ''UL'' 4 (Some [1, 2, 3, 4]) [])"
proof -
  have run: "read_dataset_item [8, 0, 0, 0, 0x55, 0x4C, 4, 0, 1, 2, 3, 4, 9]
     = Inr (Some (DataElement (ElementTag 8 0) ''UL'' 4 (Some [1, 2, 3, 4]) []), [9])"
    by (simp add: eval_defs)
  have vr: "''UL'' \<in> set VR_EXPLICIT_16BIT_VLF" by (simp add: VR_EXPLICIT_16BIT_VLF_def)
  have dl: "declared_length (DataElement (ElementTag 8 0) ''UL'' 4 (Some [1, 2, 3, 4]) []) = 4"
    by (simp add: declared_length_def DataElement_def store_length_def UNDEFINED_LENGTH_def)
  from read_dataset_item_consumes[OF run, of "''UL''"] vr dl run show ?thesis
    by (simp add: DataElement_def)
qed

subsection \<open>The two layouts of the length field\<close>

lemma from_bytes_little_bound: "from_bytes_little bs < 256 ^ length bs"
proof (induction bs)
  case Nil
  show ?case by simp
next
  case (Cons b bs)
  have "unat b < 256" using unsigned_less[of b, where 'a = nat] by simp
  moreover from Cons have "from_bytes_little bs + 1 \<le> 256 ^ length bs" by simp
  then have "256 * (from_bytes_little bs + 1) \<le> 256 * 256 ^ length bs" by simp
  ultimately show ?case by simp
qed

lemma from_bytes_little_take2: "from_bytes_little (take 2 bs) < 65536"
proof -
  have "from_bytes_little (take 2 bs) < 256 ^ length (take 2 bs)"
    by (rule from_bytes_little_bound)
  also have "\<dots> \<le> (256 :: nat) ^ 2" by (rule power_increasing) simp_all
  finally show ?thesis by simp
qed

lemma read_dataset_item_generic_cases:
  assumes "read_dataset_item f = Inr (Some e, f')" and "cls e = DataElementC"
  obtains vr len f3 where
    "f \<noteq> []"
    "str_utf8 (take 2 (drop 4 f)) = Inr vr"
    "read_length vr (drop 6 f) = (len, f3)"
    "e = DataElement (ElementTag (from_bytes_little (take 2 f))
                        (from_bytes_little (take 2 (drop 2 f))))
           vr len (if len = UNDEFINED_LENGTH then None else Some (take len f3)) []"
proof -
  from read_dataset_item_rest[OF assms(1)] have ne: "f \<noteq> []" by simp
  let ?g = "from_bytes_little (take 2 f)" and ?el = "from_bytes_little (take 2 (drop 2 f))"
  have nres: "\<not> reserved_tag ?g ?el"
  proof
    assume "reserved_tag ?g ?el"
    then have "read_dataset_item f =
       read_special (if ?el = 0xe000 then ItemDataElement
                     else if ?el = 0xe00d then ItemDelimitationElement
                     else SequenceDelimitationElement) (drop 4 f)"
      by (intro read_dataset_item_reserved) (auto simp: reserved_tag_def)
    with assms show False
      by (auto simp: read_special_eq ctor_defs split: if_splits)
  qed
  from assms(1) read_dataset_item_generic[OF ne nres]
  obtain vr where vr: "str_utf8 (take 2 (drop 4 f)) = Inr vr"
    and e: "e = DataElement (ElementTag ?g ?el) vr (fst (read_length vr (drop 6 f)))
         (if fst (read_length vr (drop 6 f)) = UNDEFINED_LENGTH then None
          else Some (take (fst (read_length vr (drop 6 f))) (snd (read_length vr (drop 6 f))))) []"
    by (auto simp: Let_def split: sum.splits)
  show ?thesis
    by (rule that[OF ne vr _ e]) simp
qed



subsection \<open>The three reserved tags\<close>

lemma read_dataset_item_special_cases:
  assumes "read_dataset_item f = Inr (Some e, f')"
    and "cls e \<noteq> DataElementC \<or> reserved_tag (group (tag e)) (elem (tag e))"
  obtains el where
    "from_bytes_little (take 2 f) = 0xfffe"
    "from_bytes_little (take 2 (drop 2 f)) = el"
    "el = 0xe000 \<or> el = 0xe00d \<or> el = 0xe0dd"
    "e = Element (special_class el) (ElementTag 0xfffe el) None
           (store_length (from_bytes_little (take 4 (drop 4 f))))
           (if from_bytes_little (take 4 (drop 4 f)) = UNDEFINED_LENGTH then None
            else Some (take (from_bytes_little (take 4 (drop 4 f))) (drop 8 f))) []"
proof -
  from read_dataset_item_rest[OF assms(1)] have ne: "f \<noteq> []" by simp
  let ?g = "from_bytes_little (take 2 f)" and ?el = "from_bytes_little (take 2 (drop 2 f))"
  have res: "reserved_tag ?g ?el"
  proof (rule ccontr)
    assume nres: "\<not> reserved_tag ?g ?el"
    from assms(1) read_dataset_item_generic[OF ne nres]
    obtain vr len d where "e = DataElement (ElementTag ?g ?el) vr len d []"
      by (auto simp: Let_def split: sum.splits)
    with assms(2) nres show False by (simp add: DataElement_def)
  qed
  then have g: "?g = 0xfffe" and el: "?el = 0xe000 \<or> ?el = 0xe00d \<or> ?el = 0xe0dd"
    by (simp_all add: reserved_tag_def)
  from read_dataset_item_reserved[OF g refl el] assms(1)
  have "e = Element (special_class ?el) (ElementTag 0xfffe ?el) None
           (store_length (from_bytes_little (take 4 (drop 4 f))))
           (if from_bytes_little (take 4 (drop 4 f)) = UNDEFINED_LENGTH then None
            else Some (take (from_bytes_little (take 4 (drop 4 f))) (drop 8 f))) []"
    using el by (auto simp: read_special_eq ctor_defs special_class_def split: if_splits)
  with g el show ?thesis by (rule that[OF _ refl])
qed



subsection \<open>Elements and their children\<close>

lemma all_elements_Nil [simp]: "all_elements [] = []"
  by (simp add: all_elements_def)

lemma all_elements_Cons [simp]:
  "all_elements (x # xs) = x # all_elements (children x) @ all_elements xs"
  by (cases x) (simp add: all_elements_def)

lemma add_children_simps [simp]:
  "cls (add_children e cs) = cls e"
  "tag (add_children e cs) = tag e"
  "val_repr (add_children e cs) = val_repr e"
  "val_length (add_children e cs) = val_length e"
  "val_data (add_children e cs) = val_data e"
  "children (add_children e cs) = children e @ cs"
  "is_length_undefined (add_children e cs) = is_length_undefined e"
  "is_delimiter (add_children e cs) = is_delimiter e"
  by (simp_all add: add_children_def is_length_undefined_def is_delimiter_def)

subsection \<open>Running the dataset reader step by step\<close>



lemma read_dataset_defined_next:
  "read_dataset_item f = Inr (Some e, f1) \<Longrightarrow> \<not> is_length_undefined e \<Longrightarrow> \<not> is_delimiter e
   \<Longrightarrow> read_dataset f1 = Inr (xs, f2) \<Longrightarrow> read_dataset f = Inr (e # xs, f2)"
  by (subst read_dataset.simps) simp

lemma read_dataset_undefined_delimiter:
  "read_dataset_item f = Inr (Some e, f1) \<Longrightarrow> is_length_undefined e
   \<Longrightarrow> read_dataset f1 = Inr (cs, f2) \<Longrightarrow> is_delimiter e
   \<Longrightarrow> read_dataset f = Inr ([add_children e cs], f2)"
  by (subst read_dataset.simps) simp

lemma read_dataset_undefined_next:
  "read_dataset_item f = Inr (Some e, f1) \<Longrightarrow> is_length_undefined e
   \<Longrightarrow> read_dataset f1 = Inr (cs, f2) \<Longrightarrow> \<not> is_delimiter e
   \<Longrightarrow> read_dataset f2 = Inr (xs, f3)
   \<Longrightarrow> read_dataset f = Inr (add_children e cs # xs, f3)"
  by (subst read_dataset.simps) simp

subsection \<open>Children of elements of undefined length\<close>



subsection \<open>Properties of every element of a parsed tree\<close>

lemma read_dataset_all_elements:
  assumes "read_dataset f = Inr (xs, f')"
    and base: "\<And>f e f1. read_dataset_item f = Inr (Some e, f1) \<Longrightarrow> Q e"
    and step: "\<And>e cs. Q e \<Longrightarrow> is_length_undefined e \<Longrightarrow> children e = []
                 \<Longrightarrow> Q (add_children e cs)"
  shows "\<forall>e \<in> set (all_elements xs). Q e"
  using assms(1)
proof (induct rule: read_dataset_Inr_induct)
  case eof
  show ?case by simp
next
  case (item f xs f' it f1 it' f2)
  from read_dataset_item_shape[OF item(2)] have nochild: "children it = []" by simp
  from base[OF item(2)] have q: "Q it" .
  have below: "Q it' \<and> (\<forall>e \<in> set (all_elements (children it')). Q e)"
  proof (cases "is_length_undefined it")
    case True
    from item(3)[OF True] step[OF q True nochild] nochild show ?thesis by auto
  next
    case False
    with item(4) nochild q show ?thesis by simp
  qed
  show ?case
  proof (cases "is_delimiter it'")
    case True
    with item(5) below show ?thesis by simp
  next
    case False
    from item(6)[OF False] below show ?thesis by auto
  qed
qed

text \<open>
  C7. None of the four constructors stores the sentinel: a length equal to
  \<open>UNDEFINED_LENGTH\<close> is stored as \<open>None\<close>, any other length as it is, and
  \<open>is_length_undefined\<close> holds exactly of the elements built from the sentinel. No
  element of a parsed tree has the sentinel as its stored length.
\<close>

theorem val_length_never_sentinel:
  assumes "read_dataset f = Inr (xs, f')"
  shows "(\<forall>e \<in> set (all_elements xs). val_length e \<noteq> Some UNDEFINED_LENGTH) \<and>
    val_length (DataElement t vr n d cs) \<noteq> Some UNDEFINED_LENGTH \<and>
    val_length (ItemDataElement n d cs) \<noteq> Some UNDEFINED_LENGTH \<and>
    val_length (ItemDelimitationElement n d cs) \<noteq> Some UNDEFINED_LENGTH \<and>
    val_length (SequenceDelimitationElement n d cs) \<noteq> Some UNDEFINED_LENGTH \<and>
    val_length (DataElement t vr n d cs) = (if n = UNDEFINED_LENGTH then None else Some n) \<and>
    val_length (ItemDataElement n d cs) = (if n = UNDEFINED_LENGTH then None else Some n) \<and>
    val_length (ItemDelimitationElement n d cs)
      = (if n = UNDEFINED_LENGTH then None else Some n) \<and>
    val_length (SequenceDelimitationElement n d cs)
      = (if n = UNDEFINED_LENGTH then None else Some n) \<and>
    (is_length_undefined (DataElement t vr n d cs) \<longleftrightarrow> n = UNDEFINED_LENGTH) \<and>
    (is_length_undefined (ItemDataElement n d cs) \<longleftrightarrow> n = UNDEFINED_LENGTH) \<and>
    (is_length_undefined (ItemDelimitationElement n d cs) \<longleftrightarrow> n = UNDEFINED_LENGTH) \<and>
    (is_length_undefined (SequenceDelimitationElement n d cs) \<longleftrightarrow> n = UNDEFINED_LENGTH)"
proof -
  have ctor: "val_length e \<noteq> Some UNDEFINED_LENGTH"
    if "read_dataset_item g = Inr (Some e, g1)" for g e g1
  proof (cases "cls e = DataElementC")
    case True
    with that show ?thesis
      by (cases rule: read_dataset_item_generic_cases)
        (simp add: DataElement_def store_length_def)
  next
    case False
    then have "cls e \<noteq> DataElementC \<or> reserved_tag (group (tag e)) (elem (tag e))" by simp
    with that obtain el where
      "e = Element (special_class el) (ElementTag 0xfffe el) None
           (store_length (from_bytes_little (take 4 (drop 4 g))))
           (if from_bytes_little (take 4 (drop 4 g)) = UNDEFINED_LENGTH then None
            else Some (take (from_bytes_little (take 4 (drop 4 g))) (drop 8 g))) []"
      by (rule read_dataset_item_special_cases)
    then show ?thesis by (simp add: store_length_def)
  qed
  have "\<forall>e \<in> set (all_elements xs). val_length e \<noteq> Some UNDEFINED_LENGTH"
    by (rule read_dataset_all_elements[OF assms]) (simp_all add: ctor)
  then show ?thesis
    by (simp add: ctor_defs store_length_def is_length_undefined_def)
qed

theorem val_length_never_sentinel_witness:
  "read_dataset [0xFE, 0xFF, 0x00, 0xE0, 0xFF, 0xFF, 0xFF, 0xFF]
     = Inr ([add_children (ItemDataElement UNDEFINED_LENGTH None []) []], []) \<and>
   val_length (add_children (ItemDataElement UNDEFINED_LENGTH None []) [])
     \<noteq> Some UNDEFINED_LENGTH \<and>
   is_length_undefined (ItemDataElement UNDEFINED_LENGTH None [])"
proof -
  let ?item = "ItemDataElement UNDEFINED_LENGTH None []"
  have i0: "read_dataset_item [0xFE, 0xFF, 0x00, 0xE0, 0xFF, 0xFF, 0xFF, 0xFF]
    = Inr (Some ?item, [])"
    by (simp add: eval_defs)
  have u: "is_length_undefined ?item"
    by (simp add: is_length_undefined_def ctor_defs store_length_def)
  have d: "\<not> is_delimiter ?item" by (simp add: is_delimiter_def ctor_defs)
  have run: "read_dataset [0xFE, 0xFF, 0x00, 0xE0, 0xFF, 0xFF, 0xFF, 0xFF]
     = Inr ([add_children ?item []], [])"
    by (rule read_dataset_undefined_next[OF i0 u read_dataset_eof d read_dataset_eof])
  from val_length_never_sentinel[OF run, of "ElementTag 8 0" "''UL''" UNDEFINED_LENGTH None "[]"] run
  show ?thesis by simp
qed

subsection \<open>Elements with a short-form value representation\<close>

lemma read_dataset_item_short_form:
  assumes "read_dataset_item f = Inr (Some e, f')"
  shows "(cls e = DataElementC \<longleftrightarrow> val_repr e \<noteq> None) \<and>
         (\<forall>vr. val_repr e = Some vr \<and> vr \<in> set VR_EXPLICIT_16BIT_VLF \<longrightarrow>
            (\<exists>n d. val_length e = Some n \<and> n \<le> 0xFFFF \<and> val_data e = Some d \<and>
                   length d \<le> n) \<and> children e = [])"
proof (cases "cls e = DataElementC")
  case True
  with assms show ?thesis
  proof (cases rule: read_dataset_item_generic_cases)
    case (1 vr len f3)
    have "len \<le> 0xFFFF \<and> len \<noteq> UNDEFINED_LENGTH" if "vr \<in> set VR_EXPLICIT_16BIT_VLF"
      using 1(3) that from_bytes_little_take2[of "drop 6 f"]
      by (auto simp: read_length_eq UNDEFINED_LENGTH_def)
    with 1(4) show ?thesis by (auto simp: DataElement_def store_length_def)
  qed
next
  case False
  with read_dataset_item_shape[OF assms] show ?thesis by auto
qed

text \<open>
  C9. In a parsed tree, an element whose value representation is one of the 21 codes of
  the table has a defined length of at most 0xFFFF, which is not the sentinel, a payload
  that was read with it, and no children. An element of undefined length is therefore a
  reserved-tag element, which stores no value representation, or a generic element whose
  value representation is outside the table.
\<close>

theorem short_form_length_defined:
  assumes "read_dataset f = Inr (xs, f')" and "e \<in> set (all_elements xs)"
  shows "(\<forall>vr. val_repr e = Some vr \<and> vr \<in> set VR_EXPLICIT_16BIT_VLF \<longrightarrow>
            (\<exists>n d. val_length e = Some n \<and> n \<le> 0xFFFF \<and> n \<noteq> UNDEFINED_LENGTH \<and>
                   val_data e = Some d \<and> length d \<le> n) \<and>
            \<not> is_length_undefined e \<and> children e = []) \<and>
         (is_length_undefined e \<longrightarrow>
            (cls e \<noteq> DataElementC \<and> val_repr e = None) \<or>
            (cls e = DataElementC \<and>
             (\<exists>vr. val_repr e = Some vr \<and> vr \<notin> set VR_EXPLICIT_16BIT_VLF)))"
proof -
  let ?Q = "\<lambda>e. (cls e = DataElementC \<longleftrightarrow> val_repr e \<noteq> None) \<and>
         (\<forall>vr. val_repr e = Some vr \<and> vr \<in> set VR_EXPLICIT_16BIT_VLF \<longrightarrow>
            (\<exists>n d. val_length e = Some n \<and> n \<le> 0xFFFF \<and> val_data e = Some d \<and>
                   length d \<le> n) \<and> children e = [])"
  have "\<forall>e \<in> set (all_elements xs). ?Q e"
  proof (rule read_dataset_all_elements[OF assms(1)])
    show "?Q e" if "read_dataset_item g = Inr (Some e, g1)" for g e g1
      using that by (rule read_dataset_item_short_form)
    show "?Q (add_children e cs)" if "?Q e" "is_length_undefined e" "children e = []" for e cs
      using that by (auto simp: is_length_undefined_def)
  qed
  with assms(2) have q: "?Q e" by blast
  have "n \<noteq> UNDEFINED_LENGTH" if "n \<le> 0xFFFF" for n :: nat
    using that by (simp add: UNDEFINED_LENGTH_def)
  with q show ?thesis
    by (cases "val_repr e") (auto simp: is_length_undefined_def)
qed

theorem short_form_length_defined_witness:
  "read_dataset [0x08, 0x00, 0x00, 0x00, 0x55, 0x4C, 0x04, 0x00, 0x01, 0x02, 0x03, 0x04]
     = Inr ([DataElement (ElementTag 8 0) ''UL'' 4 (Some [0x01, 0x02, 0x03, 0x04]) []], []) \<and>
   ''UL'' \<in> set VR_EXPLICIT_16BIT_VLF \<and>
   \<not> is_length_undefined
       (DataElement (ElementTag 8 0) ''UL'' 4 (Some [0x01, 0x02, 0x03, 0x04]) []) \<and>
   children (DataElement (ElementTag 8 0) ''UL'' 4 (Some [0x01, 0x02, 0x03, 0x04]) []) = []"
proof -
  let ?ul = "DataElement (ElementTag 8 0) ''UL'' 4 (Some [0x01, 0x02, 0x03, 0x04]) []"
  have i0: "read_dataset_item
      [0x08, 0x00, 0x00, 0x00, 0x55, 0x4C, 0x04, 0x00, 0x01, 0x02, 0x03, 0x04]
    = Inr (Some ?ul, [])"
    by (simp add: eval_defs)
  have u: "\<not> is_length_undefined ?ul"
    by (simp add: is_length_undefined_def ctor_defs store_length_def UNDEFINED_LENGTH_def)
  have d: "\<not> is_delimiter ?ul" by (simp add: is_delimiter_def ctor_defs)
  have run: "read_dataset
      [0x08, 0x00, 0x00, 0x00, 0x55, 0x4C, 0x04, 0x00, 0x01, 0x02, 0x03, 0x04]
    = Inr ([?ul], [])"
    by (rule read_dataset_defined_next[OF i0 u d read_dataset_eof])
  have vr: "''UL'' \<in> set VR_EXPLICIT_16BIT_VLF" by (simp add: VR_EXPLICIT_16BIT_VLF_def)
  have mem: "?ul \<in> set (all_elements [?ul])" by simp
  have rep: "val_repr ?ul = Some ''UL''" by (simp add: DataElement_def)
  from short_form_length_defined[OF run mem] vr rep run show ?thesis
    by blast
qed

subsection \<open>Elements found by tag\<close>

lemma ElementTag_eq_iff: "ElementTag_eq a b \<longleftrightarrow> a = b"
  by (cases a; cases b) (auto simp: ElementTag_eq_def)

lemma find_loop_filter: "find_loop t acc items = acc @ filter (\<lambda>e. tag e = t) items"
  by (induction items arbitrary: acc) (simp_all add: ElementTag_eq_iff)

text \<open>
  C10. \<open>find_elements_by_tag\<close> returns the elements of the top-level dataset whose tag is
  the given one, in dataset order. Children are not searched: every element returned is
  an entry of the top-level dataset, and a dataset none of whose entries has the tag gives
  the empty list whatever its entries contain.
\<close>

theorem find_elements_by_tag_top_level:
  "find_elements_by_tag dicom t = filter (\<lambda>e. tag e = t) (dataset dicom) \<and>
   set (find_elements_by_tag dicom t) \<subseteq> set (dataset dicom) \<and>
   (t \<notin> tag ` set (dataset dicom) \<longrightarrow> find_elements_by_tag dicom t = [])"
proof -
  have eq: "find_elements_by_tag dicom t = filter (\<lambda>e. tag e = t) (dataset dicom)"
    by (simp add: find_elements_by_tag_def find_loop_filter)
  moreover have "filter (\<lambda>e. tag e = t) (dataset dicom) = []"
    if "t \<notin> tag ` set (dataset dicom)"
    using that by (auto simp: filter_empty_conv)
  ultimately show ?thesis by auto
qed

theorem find_elements_by_tag_top_level_witness:
  "find_elements_by_tag
     \<lparr>path = ''a.dcm'', preamble = [],
      dataset = [add_children (ItemDataElement UNDEFINED_LENGTH None [])
                   [DataElement (ElementTag 8 0) ''UL'' 1 (Some [0x07]) []],
                 DataElement (ElementTag 8 0) ''UL'' 1 (Some [0x09]) []]\<rparr>
     (ElementTag 8 0)
   = [DataElement (ElementTag 8 0) ''UL'' 1 (Some [0x09]) []] \<and>
   find_elements_by_tag
     \<lparr>path = ''a.dcm'', preamble = [],
      dataset = [add_children (ItemDataElement UNDEFINED_LENGTH None [])
                   [DataElement (ElementTag 8 0) ''UL'' 1 (Some [0x07]) []]]\<rparr>
     (ElementTag 8 0)
   = []"
proof -
  let ?item = "add_children (ItemDataElement UNDEFINED_LENGTH None [])
                   [DataElement (ElementTag 8 0) ''UL'' 1 (Some [0x07]) []]"
  let ?top = "DataElement (ElementTag 8 0) ''UL'' 1 (Some [0x09]) []"
  have t1: "tag ?item \<noteq> ElementTag 8 0" by (simp add: ItemDataElement_def)
  have t2: "tag ?top = ElementTag 8 0" by (simp add: DataElement_def)
  from find_elements_by_tag_top_level
         [of "\<lparr>path = ''a.dcm'', preamble = [], dataset = [?item, ?top]\<rparr>" "ElementTag 8 0"]
       find_elements_by_tag_top_level
         [of "\<lparr>path = ''a.dcm'', preamble = [], dataset = [?item]\<rparr>" "ElementTag 8 0"]
       t1 t2
  show ?thesis by simp
qed

subsection \<open>Loading a file\<close>







subsection \<open>Streams that end early\<close>

text \<open>
  C2, as the code has it. The element reader does not check how many bytes a read
  returned. On a stream that is not empty it returns an element built from the bytes that
  were there: the cursor ends where the declared sizes put it or at the end of the stream,
  and the payload of an element of defined length \<open>n\<close> is what the stream holds of the
  \<open>n\<close> bytes after the header, fewer than \<open>n\<close> when the stream ends first. It fails in one
  case only, with a decode error, when the tag is not reserved and the bytes read for the
  value representation are not UTF-8.
\<close>

theorem read_dataset_item_short_reads:
  assumes "f \<noteq> []"
  shows "(read_dataset_item f = Inl UnicodeDecodeError \<and>
          \<not> reserved_tag (from_bytes_little (take 2 f)) (from_bytes_little (take 2 (drop 2 f))) \<and>
          \<not> utf8_wellformed (take 2 (drop 4 f))) \<or>
         (\<exists>e. read_dataset_item f = Inr (Some e, drop (header_size e + declared_length e) f) \<and>
              val_data e =
                (case val_length e of
                   None \<Rightarrow> None
                 | Some n \<Rightarrow> Some (take n (drop (header_size e) f))) \<and>
              (\<forall>n d. val_length e = Some n \<and> val_data e = Some d
                 \<longrightarrow> length d = min n (length f - header_size e)))"
proof -
  let ?g = "from_bytes_little (take 2 f)" and ?el = "from_bytes_little (take 2 (drop 2 f))"
  let ?ok = "\<lambda>e. val_data e =
                (case val_length e of
                   None \<Rightarrow> None
                 | Some n \<Rightarrow> Some (take n (drop (header_size e) f)))"
  have fin: ?thesis if run: "read_dataset_item f = Inr (Some e, f')" and ok: "?ok e" for e f'
  proof -
    from read_dataset_item_rest[OF run] run
    have "read_dataset_item f = Inr (Some e, drop (header_size e + declared_length e) f)"
      by simp
    moreover have "length d = min n (length f - header_size e)"
      if "val_length e = Some n" "val_data e = Some d" for n d
      using ok that by auto
    ultimately show ?thesis using ok by blast
  qed
  show ?thesis
  proof (cases "reserved_tag ?g ?el")
    case True
    then have "read_dataset_item f =
       read_special (if ?el = 0xe000 then ItemDataElement
                     else if ?el = 0xe00d then ItemDelimitationElement
                     else SequenceDelimitationElement) (drop 4 f)"
      by (intro read_dataset_item_reserved) (auto simp: reserved_tag_def)
    note sp = this
    have "\<exists>e f'. read_special mk g = Inr (Some e, f')" for mk g
      by (cases "from_bytes_little (take 4 g) = UNDEFINED_LENGTH")
        (simp_all add: read_special_eq)
    with sp obtain e f' where run: "read_dataset_item f = Inr (Some e, f')"
      by metis
    with sp have "cls e \<noteq> DataElementC \<or> reserved_tag (group (tag e)) (elem (tag e))"
      by (auto simp: read_special_eq ctor_defs split: if_splits)
    with run obtain el where
      "e = Element (special_class el) (ElementTag 0xfffe el) None
           (store_length (from_bytes_little (take 4 (drop 4 f))))
           (if from_bytes_little (take 4 (drop 4 f)) = UNDEFINED_LENGTH then None
            else Some (take (from_bytes_little (take 4 (drop 4 f))) (drop 8 f))) []"
      by (rule read_dataset_item_special_cases)
    then have "?ok e" by (simp add: header_size_def store_length_def)
    with run show ?thesis by (rule fin)
  next
    case False
    note generic = read_dataset_item_generic[OF assms False]
    show ?thesis
    proof (cases "utf8_wellformed (take 2 (drop 4 f))")
      case wf: False
      with generic have "read_dataset_item f = Inl UnicodeDecodeError"
        by (simp add: str_utf8_def)
      with False wf show ?thesis by blast
    next
      case True
      then obtain vr where vr: "str_utf8 (take 2 (drop 4 f)) = Inr vr"
        by (simp add: str_utf8_def)
      with generic obtain e f' where run: "read_dataset_item f = Inr (Some e, f')"
        by (simp add: Let_def)
      then have "cls e = DataElementC" using generic vr by (auto simp: Let_def DataElement_def)
      with run have "?ok e"
      proof (cases rule: read_dataset_item_generic_cases)
        case (1 vr len f3)
        then show ?thesis
          by (auto simp: read_length_eq DataElement_def header_size_def store_length_def
              split: if_splits)
      qed
      with run show ?thesis by (rule fin)
    qed
  qed
qed

text \<open>
  A stream that ends two bytes into a payload of declared length 4, and one that ends one
  byte into the 2-byte length field: the element reader returns an element for both.
\<close>

theorem read_dataset_item_short_reads_counterexample:
  "read_dataset_item [0x08, 0x00, 0x00, 0x00, 0x55, 0x4C, 0x04, 0x00, 0x01, 0x02]
     = Inr (Some (DataElement (ElementTag 8 0) ''UL'' 4 (Some [0x01, 0x02]) []), []) \<and>
   read_dataset_item [0x08, 0x00, 0x00, 0x00, 0x55, 0x4C, 0x04]
     = Inr (Some (DataElement (ElementTag 8 0) ''UL'' 4 (Some []) []), [])"
  by (simp add: eval_defs)

theorem read_dataset_item_short_reads_witness:
  "[0x08, 0x00, 0x00, 0x00, 0x55, 0x4C, 0x04, 0x00, 0x01, 0x02 :: byte] \<noteq> [] \<and>
   (\<exists>e. read_dataset_item [0x08, 0x00, 0x00, 0x00, 0x55, 0x4C, 0x04, 0x00, 0x01, 0x02]
          = Inr (Some e, []) \<and>
        val_length e = Some 4 \<and> val_data e = Some [0x01, 0x02])"
proof -
  have run: "read_dataset_item [0x08, 0x00, 0x00, 0x00, 0x55, 0x4C, 0x04, 0x00, 0x01, 0x02]
     = Inr (Some (DataElement (ElementTag 8 0) ''UL'' 4 (Some [0x01, 0x02]) []), [])"
    by (simp add: eval_defs)
  have ne: "[0x08, 0x00, 0x00, 0x00, 0x55, 0x4C, 0x04, 0x00, 0x01, 0x02 :: byte] \<noteq> []"
    by simp
  from read_dataset_item_short_reads[OF ne] run show ?thesis
    by (auto simp: DataElement_def store_length_def UNDEFINED_LENGTH_def)
qed

subsection \<open>Determinism\<close>




end
